theory Spec2Isabelle
  imports Main "HOL-Library.Word"
begin

unbundle bit_operations_syntax

section \<open>The PRU motion queue of BeagleG (pru-motion-queue.c)\<close>

text \<open>
  The host side of the motion queue writes motion segments into a ring buffer that lives
  in the static RAM of the PRU coprocessor, and drives the motor-enable line through a
  GPIO register. The functions of \<^verbatim>\<open>pru-motion-queue.c\<close> are embedded below as functions
  on an explicit driver state. Everything the driver does that can be seen from outside
  (a store to the shared ring buffer, a call into the prussdrv library, a GPIO store) is
  appended to a trace, so that statements about the order of these actions can be made.

  The operations are static functions that are reachable only through the function table
  that \<^verbatim>\<open>init_pru_motion_queue\<close> fills after all mappings have succeeded; the model
  therefore describes them while \<^verbatim>\<open>pru_data_\<close> and \<^verbatim>\<open>gpio_1\<close> point to mapped memory.
  The diagnostic output of \<^verbatim>\<open>DumpMotionSegment\<close> (text on stderr) is not part of the model.
\<close>

subsection \<open>Constants of the headers\<close>

text \<open>
  \<^verbatim>\<open>motion-queue.h\<close> and \<^verbatim>\<open>motor-interface-constants.h\<close> are not among the sources.
  The values of their macros that the driver uses are parameters of the model.
\<close>

record constants =
  QUEUE_LEN :: "32 word"
  MOTION_MOTOR_COUNT :: nat
  STATE_EXIT :: "8 word"
  MOTOR_ENABLE_GPIO1_BIT :: nat

text \<open>
  Modelled from the spec: the value of the macro \<^verbatim>\<open>STATE_EMPTY\<close>, declared in the missing
  header. The interface table of the specification fixes it: ``0 = Empty''.
\<close>

definition STATE_EMPTY :: "8 word" where
  "STATE_EMPTY = 0"

subsection \<open>Data\<close>

text \<open>
  Modelled from the spec: \<^verbatim>\<open>struct MotionSegment\<close>, declared in the missing header
  \<^verbatim>\<open>motion-queue.h\<close>. The fields are those of the specification's layout table (and those
  that \<^verbatim>\<open>DumpMotionSegment\<close> prints); the state tag is one byte, as
  \<^verbatim>\<open>const uint8_t state_to_send = element->state\<close> shows. The widths of the other fields do
  not matter to anything below.
\<close>

record MotionSegment =
  state :: "8 word"
  direction_bits :: "8 word"
  loops_accel :: "16 word"
  loops_travel :: "16 word"
  loops_decel :: "16 word"
  hires_accel_cycles :: "32 word"
  travel_delay_cycles :: "32 word"
  fractions :: "32 word list"

text \<open>A segment of zero bytes: what \<^verbatim>\<open>bzero\<close> and the initialiser \<^verbatim>\<open>{0}\<close> produce.\<close>

definition zero_segment :: "constants \<Rightarrow> MotionSegment" where
  "zero_segment c =
     \<lparr>state = 0, direction_bits = 0, loops_accel = 0, loops_travel = 0, loops_decel = 0,
      hires_accel_cycles = 0, travel_delay_cycles = 0,
      fractions = replicate (MOTION_MOTOR_COUNT c) 0\<rparr>"

text \<open>
  What the driver does that is visible outside of it, in the order in which it happens:
  the calls into the prussdrv library, every store into a slot of the shared ring buffer
  (with the content of the slot after the store), the store into the data-out register
  of GPIO-1 and the unmapping of the GPIO windows.
\<close>

datatype action =
    WaitEvent
  | ClearEvent
  | SlotStore nat MotionSegment
  | PruDisable
  | PruExit
  | DataOutStore "32 word"
  | UnmapGpio

text \<open>
  Modelled from the spec: the coprocessor firmware (\<^verbatim>\<open>motor-interface-pru.p\<close>) is not among
  the sources. The specification gives it one kind of write to the shared memory: it
  flips the state of a slot from non-Empty back to Empty, and it raises the event that
  \<^verbatim>\<open>prussdrv_pru_wait_event\<close> waits for. One \<open>pru_event\<close> is one such event, together with
  the indices of the slots that the coprocessor has marked Empty since the previous one.
\<close>

type_synonym pru_event = "nat list"

text \<open>
  The driver state: the file's static variables \<^verbatim>\<open>pru_data_->ring_buffer\<close> (shared with
  the coprocessor), \<^verbatim>\<open>queue_pos_\<close> (an \<^verbatim>\<open>unsigned int\<close>), the register
  \<^verbatim>\<open>gpio_1[GPIO_DATAOUT/4]\<close> and whether the GPIO windows are mapped; the events that the
  coprocessor is still going to raise (when none is left, a call of
  \<^verbatim>\<open>prussdrv_pru_wait_event\<close> never returns); and the trace of actions so far.
\<close>

record pru_state =
  ring_buffer :: "MotionSegment list"
  queue_pos :: "32 word"
  gpio_1_dataout :: "32 word"
  gpio_mapped :: bool
  events :: "pru_event list"
  trace :: "action list"

text \<open>
  A call either returns, or aborts the process through a failed \<^verbatim>\<open>assert\<close>, or waits for
  an event that never comes.
\<close>

datatype 'a outcome = Done 'a | Abort | Blocked

subsection \<open>The coprocessor's writes\<close>

definition mark_empty :: "nat \<Rightarrow> MotionSegment list \<Rightarrow> MotionSegment list" where
  "mark_empty i rb = rb[i := (rb ! i)\<lparr>state := STATE_EMPTY\<rparr>]"

definition pru_mark_empty :: "pru_event \<Rightarrow> MotionSegment list \<Rightarrow> MotionSegment list" where
  "pru_mark_empty ev rb = fold mark_empty ev rb"

text \<open>The coprocessor empties slots while the host is not waiting (no event is consumed).\<close>

definition pru_consume :: "nat list \<Rightarrow> pru_state \<Rightarrow> pru_state" where
  "pru_consume js s = s\<lparr>ring_buffer := pru_mark_empty js (ring_buffer s)\<rparr>"

subsection \<open>The functions of the driver\<close>


text \<open>
  \<^verbatim>\<open>map_pru_communication\<close>: the mapped block is zeroed, every slot's state is set to
  \<^verbatim>\<open>STATE_EMPTY\<close> and \<^verbatim>\<open>queue_pos_\<close> is set to 0.
\<close>

definition map_pru_communication :: "constants \<Rightarrow> pru_state \<Rightarrow> pru_state" where
  "map_pru_communication c s =
     s\<lparr>ring_buffer := map (\<lambda>m. m\<lparr>state := STATE_EMPTY\<rparr>)
                          (replicate (unat (QUEUE_LEN c)) (zero_segment c)),
       queue_pos := 0\<rparr>"

text \<open>
  The loop that \<^verbatim>\<open>next_queue_element\<close> and \<^verbatim>\<open>pru_wait_queue_empty\<close> share word for word:
  \<^verbatim>\<open>while (pru_data_->ring_buffer[i].state != STATE_EMPTY) { wait_event; clear_event; }\<close>.
  Each round takes the next event of the coprocessor, with the slots it has emptied; when
  the slot is busy and no event is left, the call never returns.
\<close>

function wait_slot_empty :: "nat \<Rightarrow> pru_state \<Rightarrow> pru_state outcome" where
  "wait_slot_empty i s =
     (if state (ring_buffer s ! i) \<noteq> STATE_EMPTY
      then (case events s of
              [] \<Rightarrow> Blocked
            | ev # rest \<Rightarrow>
                wait_slot_empty i
                  (s\<lparr>ring_buffer := pru_mark_empty ev (ring_buffer s),
                     events := rest,
                     trace := trace s @ [WaitEvent, ClearEvent]\<rparr>))
      else Done s)"
  by pat_completeness auto
termination
  by (relation "measure (\<lambda>(i, s). length (events s))") auto

declare wait_slot_empty.simps [simp del]

text \<open>
  \<^verbatim>\<open>next_queue_element\<close>: \<^verbatim>\<open>queue_pos_ %= QUEUE_LEN\<close>, the wait loop on that slot, and
  \<^verbatim>\<open>return &pru_data_->ring_buffer[queue_pos_++]\<close>. The slot is returned as its index.
\<close>

definition next_queue_element :: "constants \<Rightarrow> pru_state \<Rightarrow> (pru_state \<times> nat) outcome" where
  "next_queue_element c s =
     (let s1 = s\<lparr>queue_pos := queue_pos s mod QUEUE_LEN c\<rparr> in
      case wait_slot_empty (unat (queue_pos s1)) s1 of
        Done s2 \<Rightarrow> Done (s2\<lparr>queue_pos := queue_pos s2 + 1\<rparr>, unat (queue_pos s2))
      | Abort \<Rightarrow> Abort
      | Blocked \<Rightarrow> Blocked)"

text \<open>
  \<^verbatim>\<open>pru_motor_enable_nowait\<close>:
  \<^verbatim>\<open>gpio_1[GPIO_DATAOUT/4] = on ? 0 : (1 << MOTOR_ENABLE_GPIO1_BIT)\<close>; \<open>on\<close> is a \<^verbatim>\<open>char\<close>.
\<close>

definition pru_motor_enable_nowait :: "constants \<Rightarrow> 8 word \<Rightarrow> pru_state \<Rightarrow> pru_state" where
  "pru_motor_enable_nowait c on s =
     (let v = (if on \<noteq> 0 then 0 else push_bit (MOTOR_ENABLE_GPIO1_BIT c) (1 :: 32 word)) in
      s\<lparr>gpio_1_dataout := v, trace := trace s @ [DataOutStore v]\<rparr>)"

text \<open>
  The structure assignment \<^verbatim>\<open>*queue_element = *element\<close> stores the members of the source
  into the slot one after the other. \<open>slot_stores fs src dst\<close> lists the content of the
  slot after each store, when the members are stored in the order \<open>fs\<close>.
\<close>

datatype seg_field =
    F_state | F_direction_bits | F_loops_accel | F_loops_travel | F_loops_decel
  | F_hires_accel_cycles | F_travel_delay_cycles | F_fractions

fun store_field :: "seg_field \<Rightarrow> MotionSegment \<Rightarrow> MotionSegment \<Rightarrow> MotionSegment" where
  "store_field F_state src dst = dst\<lparr>state := state src\<rparr>"
| "store_field F_direction_bits src dst = dst\<lparr>direction_bits := direction_bits src\<rparr>"
| "store_field F_loops_accel src dst = dst\<lparr>loops_accel := loops_accel src\<rparr>"
| "store_field F_loops_travel src dst = dst\<lparr>loops_travel := loops_travel src\<rparr>"
| "store_field F_loops_decel src dst = dst\<lparr>loops_decel := loops_decel src\<rparr>"
| "store_field F_hires_accel_cycles src dst = dst\<lparr>hires_accel_cycles := hires_accel_cycles src\<rparr>"
| "store_field F_travel_delay_cycles src dst = dst\<lparr>travel_delay_cycles := travel_delay_cycles src\<rparr>"
| "store_field F_fractions src dst = dst\<lparr>fractions := fractions src\<rparr>"

fun slot_stores :: "seg_field list \<Rightarrow> MotionSegment \<Rightarrow> MotionSegment \<Rightarrow> MotionSegment list" where
  "slot_stores [] src dst = []"
| "slot_stores (f # fs) src dst = store_field f src dst # slot_stores fs src (store_field f src dst)"

text \<open>The members in the order of their declaration.\<close>

definition struct_fields :: "seg_field list" where
  "struct_fields = [F_state, F_direction_bits, F_loops_accel, F_loops_travel, F_loops_decel,
                    F_hires_accel_cycles, F_travel_delay_cycles, F_fractions]"

text \<open>
  \<^verbatim>\<open>pru_enqueue_segment\<close>. The caller's segment is passed by pointer and written to
  (\<^verbatim>\<open>element->state = STATE_EMPTY\<close>), so the model returns it next to the new state.
  \<^verbatim>\<open>assert\<close> is taken as compiled in (the file does not define \<^verbatim>\<open>NDEBUG\<close>).
\<close>

definition pru_enqueue_segment ::
  "constants \<Rightarrow> MotionSegment \<Rightarrow> pru_state \<Rightarrow> (pru_state \<times> MotionSegment) outcome" where
  "pru_enqueue_segment c element s =
     (let state_to_send = state element in
      if state_to_send = STATE_EMPTY then Abort
      else
        let element1 = element\<lparr>state := STATE_EMPTY\<rparr> in
        case next_queue_element c s of
          Abort \<Rightarrow> Abort
        | Blocked \<Rightarrow> Blocked
        | Done (s1, i) \<Rightarrow>
            let copied = slot_stores struct_fields element1 (ring_buffer s1 ! i);
                s2 = s1\<lparr>ring_buffer := (ring_buffer s1)[i := last copied],
                        trace := trace s1 @ map (SlotStore i) copied\<rparr>;
                flipped = (ring_buffer s2 ! i)\<lparr>state := state_to_send\<rparr>;
                s3 = s2\<lparr>ring_buffer := (ring_buffer s2)[i := flipped],
                        trace := trace s2 @ [SlotStore i flipped]\<rparr>
            in Done (s3, element1))"

text \<open>
  \<^verbatim>\<open>pru_wait_queue_empty\<close>:
  \<^verbatim>\<open>last_insert_position = (queue_pos_ - 1) % QUEUE_LEN\<close> in \<^verbatim>\<open>unsigned int\<close>, and the wait
  loop on that slot.
\<close>

definition pru_wait_queue_empty :: "constants \<Rightarrow> pru_state \<Rightarrow> pru_state outcome" where
  "pru_wait_queue_empty c s =
     (let last_insert_position = (queue_pos s - 1) mod QUEUE_LEN c in
      wait_slot_empty (unat last_insert_position) s)"




subsection \<open>Callers and traces\<close>

text \<open>A caller that enqueues a list of segments, one call after the other.\<close>

fun enqueue_all :: "constants \<Rightarrow> MotionSegment list \<Rightarrow> pru_state \<Rightarrow> pru_state outcome" where
  "enqueue_all c [] s = Done s"
| "enqueue_all c (e # es) s =
     (case pru_enqueue_segment c e s of
        Done (s1, e1) \<Rightarrow> enqueue_all c es s1
      | Abort \<Rightarrow> Abort
      | Blocked \<Rightarrow> Blocked)"

text \<open>The trace that the wait loop leaves for the events it has taken.\<close>

definition wakeups :: "pru_event list \<Rightarrow> action list" where
  "wakeups used = concat (map (\<lambda>ev. [WaitEvent, ClearEvent]) used)"


text \<open>
  The events that a wait on slot \<open>i\<close> takes end with the first event that marks slot
  \<open>i\<close> Empty: the last of them marks it, and none before the last does.
\<close>

definition first_mark :: "nat \<Rightarrow> pru_event list \<Rightarrow> bool" where
  "first_mark i used =
     (used = [] \<or> (i \<in> set (last used) \<and> list_all (\<lambda>ev. i \<notin> set ev) (butlast used)))"

subsection \<open>The order of consumption\<close>

text \<open>
  \<open>queue_inv c s ps\<close>: the list \<open>ps\<close> holds the indices of the slots whose segment has been
  enqueued and not yet consumed, the oldest first. These are exactly the slots whose state
  is not Empty, and the youngest of them is the slot that was filled last, at
  \<^verbatim>\<open>(queue_pos_ - 1) % QUEUE_LEN\<close>.
\<close>

definition queue_inv :: "constants \<Rightarrow> pru_state \<Rightarrow> nat list \<Rightarrow> bool" where
  "queue_inv c s ps =
     (length (ring_buffer s) = unat (QUEUE_LEN c)
      \<and> distinct ps
      \<and> list_all (\<lambda>i. i < unat (QUEUE_LEN c)) ps
      \<and> map (\<lambda>m. state m \<noteq> STATE_EMPTY) (ring_buffer s)
           = map (\<lambda>i. i \<in> set ps) [0 ..< unat (QUEUE_LEN c)]
      \<and> (ps = [] \<or> last ps = unat ((queue_pos s - 1) mod QUEUE_LEN c)))"

text \<open>The events that a call has taken, from the state before and the state after it.\<close>

definition consumed_events :: "pru_state \<Rightarrow> pru_state \<Rightarrow> pru_event list" where
  "consumed_events s s' = take (length (events s) - length (events s')) (events s)"

text \<open>
  Modelled from the spec: the coprocessor firmware is not among the sources. The
  specification lets it consume the segments in the order in which they were enqueued,
  without reordering or skipping: the slots that a sequence of events marks Empty are
  the first of the pending ones, in their order.
\<close>

definition in_enqueue_order :: "nat list \<Rightarrow> pru_event list \<Rightarrow> bool" where
  "in_enqueue_order ps evs = (concat evs = take (length (concat evs)) ps)"

subsection \<open>Concrete inputs\<close>

text \<open>
  The inputs on which the theorems below are instantiated: a queue of four slots for two
  motors, a driver state before the channel is opened (three direction bits are set in
  the data-out register), and a filled segment.
\<close>

definition example_constants :: constants where
  "example_constants =
     \<lparr>QUEUE_LEN = 4, MOTION_MOTOR_COUNT = 2, STATE_EXIT = 2, MOTOR_ENABLE_GPIO1_BIT = 28\<rparr>"

definition unopened :: pru_state where
  "unopened =
     \<lparr>ring_buffer = [], queue_pos = 7, gpio_1_dataout = 0x7000, gpio_mapped = True,
      events = [], trace = []\<rparr>"

definition filled :: "8 word \<Rightarrow> MotionSegment" where
  "filled d =
     \<lparr>state = 1, direction_bits = d, loops_accel = 10, loops_travel = 100, loops_decel = 10,
      hires_accel_cycles = 4096, travel_delay_cycles = 500, fractions = [1, 2]\<rparr>"

text \<open>Four filled segments, one round of the example queue.\<close>

definition four :: "MotionSegment list" where
  "four = [filled 1, filled 2, filled 3, filled 4]"

text \<open>
  The example channel with a coprocessor that is going to consume slot 0 and then slot 1,
  and the state after two segments have been enqueued into it.
\<close>

definition draining :: pru_state where
  "draining = unopened\<lparr>events := [[0], [1]]\<rparr>"

definition two_enqueued :: pru_state where
  "two_enqueued =
     (let f = map_pru_communication example_constants draining in
      f\<lparr>ring_buffer := (ring_buffer f)[0 := filled 1, 1 := filled 2],
        queue_pos := 2,
        trace := trace f
          @ map (SlotStore 0)
              (slot_stores struct_fields ((filled 1)\<lparr>state := STATE_EMPTY\<rparr>) (ring_buffer f ! 0))
          @ [SlotStore 0 (filled 1)]
          @ map (SlotStore 1)
              (slot_stores struct_fields ((filled 2)\<lparr>state := STATE_EMPTY\<rparr>) (ring_buffer f ! 1))
          @ [SlotStore 1 (filled 2)]\<rparr>)"

section \<open>Properties\<close>

subsection \<open>Arithmetic of the cursor\<close>

lemma unat_mod_less: "(q :: 32 word) \<noteq> 0 \<Longrightarrow> unat (p mod q) < unat q"
  by (simp add: unat_mod unat_gt_0)

lemma word_mod_small: "unat (p :: 32 word) < unat q \<Longrightarrow> p mod q = p"
  by (simp add: word_unat_eq_iff unat_mod)

lemma unat_succ_below: "unat (p :: 32 word) < unat (q :: 32 word) \<Longrightarrow> unat (p + 1) = unat p + 1"
proof -
  assume "unat p < unat q"
  moreover have "unat q < 2 ^ 32" using unsigned_less [of q] by simp
  ultimately have "unat p + unat (1 :: 32 word) < 2 ^ LENGTH(32)" by simp
  then show ?thesis by (simp only: unat_add_lem [THEN iffD1] unat_1)
qed

lemma last_insert_after_enqueue:
  assumes "QUEUE_LEN c \<noteq> 0"
  shows "(p mod QUEUE_LEN c + 1 - 1) mod QUEUE_LEN c = p mod QUEUE_LEN c"
  by (simp add: word_mod_small unat_mod_less [OF assms])

text \<open>Arithmetic of \<^verbatim>\<open>(queue_pos_ - 1) % QUEUE_LEN\<close> at \<^verbatim>\<open>queue_pos_ = 0\<close>.\<close>

lemma unat_max_word32: "unat (- 1 :: 32 word) = 2 ^ 32 - 1"
  by (simp add: unsigned_minus_1_eq_mask mask_eq_exp_minus_1)

lemma max_word_mod_dvd:
  fixes n :: nat
  assumes "0 < n" "n dvd 2 ^ 32"
  shows "(2 ^ 32 - 1) mod n = n - 1"
proof -
  from assms obtain k where k: "(2::nat) ^ 32 = n * k" by (auto simp: dvd_def)
  have "0 < k" using k by (cases k) auto
  then obtain k' where k': "k = Suc k'" by (cases k) auto
  have "(2::nat) ^ 32 - 1 = (n - 1) + k' * n"
    using k k' assms(1) by (simp add: algebra_simps)
  then have "(2 ^ 32 - 1) mod n = (n - 1) mod n" by (metis mod_mult_self1)
  then show ?thesis using assms(1) by simp
qed

lemma last_insert_position_fresh:
  assumes "QUEUE_LEN c \<noteq> 0" "unat (QUEUE_LEN c) dvd 2 ^ 32"
  shows "(0 - 1) mod QUEUE_LEN c = QUEUE_LEN c - 1"
proof -
  have "unat ((0 - 1) mod QUEUE_LEN c) = (2 ^ 32 - 1) mod unat (QUEUE_LEN c)"
    by (simp add: unat_mod unat_max_word32)
  also have "\<dots> = unat (QUEUE_LEN c) - 1"
    using assms by (intro max_word_mod_dvd) (simp_all add: unat_gt_0)
  also have "\<dots> = unat (QUEUE_LEN c - 1)"
    using assms(1) by (simp add: unat_minus_one)
  finally show ?thesis by (simp only: word_unat_eq_iff)
qed

subsection \<open>The coprocessor's writes and the traces\<close>

lemma length_mark_empty [simp]: "length (mark_empty i rb) = length rb"
  by (simp add: mark_empty_def)

lemma length_pru_mark_empty [simp]: "length (pru_mark_empty ev rb) = length rb"
  unfolding pru_mark_empty_def by (induction ev arbitrary: rb) simp_all

lemma state_mark_empty:
  "j < length rb \<Longrightarrow>
   state (mark_empty i rb ! j) = (if j = i then STATE_EMPTY else state (rb ! j))"
  by (simp add: mark_empty_def nth_list_update)

lemma state_fold_mark_empty:
  "j < length rb \<Longrightarrow>
   state (fold mark_empty js rb ! j) = (if j \<in> set js then STATE_EMPTY else state (rb ! j))"
  by (induction js arbitrary: rb) (auto simp: state_mark_empty)

lemma state_pru_mark_empty:
  "j < length rb \<Longrightarrow>
   state (pru_mark_empty ev rb ! j) = (if j \<in> set ev then STATE_EMPTY else state (rb ! j))"
  by (simp add: pru_mark_empty_def state_fold_mark_empty)

lemma fold_pru_mark_empty: "fold pru_mark_empty evs rb = fold mark_empty (concat evs) rb"
  by (induction evs arbitrary: rb) (simp_all add: pru_mark_empty_def)

lemma length_fold_pru_mark_empty [simp]: "length (fold pru_mark_empty evs rb) = length rb"
  by (induction evs arbitrary: rb) simp_all

lemma count_wakeups: "count_list (wakeups used) WaitEvent = length used"
  by (induction used) (simp_all add: wakeups_def)

lemma no_wait_in_stores: "count_list (map (SlotStore i) ms) WaitEvent = 0"
  by (induction ms) simp_all




subsection \<open>The wait loop\<close>

text \<open>The wait loop: a free slot ends it at once, it never aborts, and when it returns
  it has taken a prefix of the events and applied the coprocessor's writes of these.\<close>

lemma wait_slot_empty_free:
  "state (ring_buffer s ! i) = STATE_EMPTY \<Longrightarrow> wait_slot_empty i s = Done s"
  by (simp add: wait_slot_empty.simps)

lemma wait_slot_empty_no_abort: "wait_slot_empty i s \<noteq> Abort"
  by (induction i s rule: wait_slot_empty.induct)
     (subst wait_slot_empty.simps, simp split: list.splits)

lemma wait_slot_empty_Done:
  "wait_slot_empty i s = Done s' \<Longrightarrow>
   \<exists>used rest. events s = used @ rest
        \<and> s' = s\<lparr>ring_buffer := fold pru_mark_empty used (ring_buffer s),
                  events := rest,
                  trace := trace s @ wakeups used\<rparr>
        \<and> state (ring_buffer s' ! i) = STATE_EMPTY
        \<and> (used = []) = (state (ring_buffer s ! i) = STATE_EMPTY)
        \<and> (i < length (ring_buffer s) \<longrightarrow> first_mark i used)"
proof (induction i s rule: wait_slot_empty.induct)
  case (1 i s)
  show ?case
  proof (cases "state (ring_buffer s ! i) = STATE_EMPTY")
    case True
    with "1.prems" have "s' = s" by (simp add: wait_slot_empty.simps)
    with True show ?thesis
      by (intro exI [of _ "[]"] exI [of _ "events s"]) (simp add: wakeups_def first_mark_def)
  next
    case False
    with "1.prems" obtain ev evs where ev: "events s = ev # evs"
      by (cases "events s") (simp_all add: wait_slot_empty.simps)
    let ?t = "s\<lparr>ring_buffer := pru_mark_empty ev (ring_buffer s), events := evs,
                 trace := trace s @ [WaitEvent, ClearEvent]\<rparr>"
    from "1.prems" False ev have "wait_slot_empty i ?t = Done s'"
      by (simp add: wait_slot_empty.simps)
    from "1.IH" [OF False ev this] obtain used rest where
      u: "events ?t = used @ rest"
         "s' = ?t\<lparr>ring_buffer := fold pru_mark_empty used (ring_buffer ?t),
                   events := rest, trace := trace ?t @ wakeups used\<rparr>"
         "state (ring_buffer s' ! i) = STATE_EMPTY"
         "(used = []) = (state (ring_buffer ?t ! i) = STATE_EMPTY)"
         "i < length (ring_buffer ?t) \<longrightarrow> first_mark i used"
      by blast
    have fm: "first_mark i (ev # used)" if l: "i < length (ring_buffer s)"
    proof (cases "used = []")
      case True
      with u(4) have "state (pru_mark_empty ev (ring_buffer s) ! i) = STATE_EMPTY" by simp
      with False l have "i \<in> set ev" by (simp add: state_pru_mark_empty split: if_splits)
      with True show ?thesis by (simp add: first_mark_def)
    next
      case ne: False
      with u(4) have "state (pru_mark_empty ev (ring_buffer s) ! i) \<noteq> STATE_EMPTY" by simp
      with l have "i \<notin> set ev" by (simp add: state_pru_mark_empty split: if_splits)
      moreover have "first_mark i used" using u(5) l by simp
      ultimately show ?thesis using ne by (simp add: first_mark_def)
    qed
    show ?thesis
      using u(1,2,3) ev False fm
      by (intro exI [of _ "ev # used"] exI [of _ rest]) (simp add: wakeups_def)
  qed
qed

lemma wait_slot_empty_Blocked_iff:
  "i < length (ring_buffer s) \<Longrightarrow>
   (wait_slot_empty i s = Blocked)
     = (state (ring_buffer s ! i) \<noteq> STATE_EMPTY \<and> (\<forall>ev \<in> set (events s). i \<notin> set ev))"
proof (induction i s rule: wait_slot_empty.induct)
  case (1 i s)
  show ?case
  proof (cases "state (ring_buffer s ! i) = STATE_EMPTY")
    case True
    then show ?thesis by (simp add: wait_slot_empty.simps)
  next
    case False
    show ?thesis
    proof (cases "events s")
      case Nil
      with False show ?thesis by (simp add: wait_slot_empty.simps)
    next
      case (Cons ev rest)
      let ?t = "s\<lparr>ring_buffer := pru_mark_empty ev (ring_buffer s), events := rest,
                   trace := trace s @ [WaitEvent, ClearEvent]\<rparr>"
      have step: "wait_slot_empty i s = wait_slot_empty i ?t"
        using False Cons by (subst wait_slot_empty.simps) simp
      have "i < length (ring_buffer ?t)" using "1.prems" by simp
      from "1.IH" [OF False Cons this] show ?thesis
        using False Cons "1.prems" by (auto simp: step state_pru_mark_empty)
    qed
  qed
qed

lemma next_queue_element_no_abort: "next_queue_element c s \<noteq> Abort"
  by (simp add: next_queue_element_def Let_def wait_slot_empty_no_abort split: outcome.splits)

lemma next_queue_element_Done:
  assumes "next_queue_element c s = Done (s1, i)"
  shows "\<exists>used rest. i = unat (queue_pos s mod QUEUE_LEN c)
           \<and> events s = used @ rest
           \<and> s1 = s\<lparr>ring_buffer := fold pru_mark_empty used (ring_buffer s),
                     queue_pos := queue_pos s mod QUEUE_LEN c + 1,
                     events := rest,
                     trace := trace s @ wakeups used\<rparr>
           \<and> state (fold pru_mark_empty used (ring_buffer s) ! i) = STATE_EMPTY
           \<and> (used = []) = (state (ring_buffer s ! i) = STATE_EMPTY)
           \<and> (i < length (ring_buffer s) \<longrightarrow> first_mark i used)"
proof -
  let ?s0 = "s\<lparr>queue_pos := queue_pos s mod QUEUE_LEN c\<rparr>"
  from assms obtain s2 where
    w: "wait_slot_empty (unat (queue_pos ?s0)) ?s0 = Done s2"
    and s1: "s1 = s2\<lparr>queue_pos := queue_pos s2 + 1\<rparr>" and i: "i = unat (queue_pos s2)"
    by (auto simp: next_queue_element_def Let_def split: outcome.splits)
  from wait_slot_empty_Done [OF w] obtain used rest where
    u: "events ?s0 = used @ rest"
       "s2 = ?s0\<lparr>ring_buffer := fold pru_mark_empty used (ring_buffer ?s0),
                 events := rest, trace := trace ?s0 @ wakeups used\<rparr>"
       "state (ring_buffer s2 ! unat (queue_pos ?s0)) = STATE_EMPTY"
       "(used = []) = (state (ring_buffer ?s0 ! unat (queue_pos ?s0)) = STATE_EMPTY)"
       "unat (queue_pos ?s0) < length (ring_buffer ?s0) \<longrightarrow> first_mark (unat (queue_pos ?s0)) used"
    by blast
  show ?thesis
    using u(1,3,4,5) i unfolding s1 u(2)
    by (intro exI [of _ used] exI [of _ rest]) simp
qed

lemma next_queue_element_Blocked_iff:
  assumes "i < length (ring_buffer s)" "i = unat (queue_pos s mod QUEUE_LEN c)"
  shows "(next_queue_element c s = Blocked)
     = (state (ring_buffer s ! i) \<noteq> STATE_EMPTY \<and> (\<forall>ev \<in> set (events s). i \<notin> set ev))"
proof -
  let ?s0 = "s\<lparr>queue_pos := queue_pos s mod QUEUE_LEN c\<rparr>"
  have "(next_queue_element c s = Blocked) = (wait_slot_empty i ?s0 = Blocked)"
    using assms(2) by (simp add: next_queue_element_def Let_def split: outcome.splits)
  also have "\<dots> = (state (ring_buffer ?s0 ! i) \<noteq> STATE_EMPTY
                    \<and> (\<forall>ev \<in> set (events ?s0). i \<notin> set ev))"
    using assms(1) by (intro wait_slot_empty_Blocked_iff) simp
  finally show ?thesis by simp
qed

subsection \<open>Enqueue\<close>

text \<open>The structure assignment, and what a call of enqueue that returns has done.\<close>

lemma last_struct_copy: "last (slot_stores struct_fields src dst) = src"
  by (simp add: struct_fields_def)



lemma enqueue_not_Abort: "state element \<noteq> STATE_EMPTY \<Longrightarrow> pru_enqueue_segment c element s \<noteq> Abort"
  by (simp add: pru_enqueue_segment_def Let_def next_queue_element_no_abort
           split: outcome.splits prod.splits)

lemma enqueue_Done:
  assumes len: "i < length (ring_buffer s)" and i: "i = unat (queue_pos s mod QUEUE_LEN c)"
    and run: "pru_enqueue_segment c element s = Done (s', element')"
  shows "\<exists>used rest. events s = used @ rest
           \<and> s' = s\<lparr>ring_buffer := (fold pru_mark_empty used (ring_buffer s))[i := element],
                     queue_pos := queue_pos s mod QUEUE_LEN c + 1,
                     events := rest,
                     trace := trace s @ wakeups used
                        @ map (SlotStore i)
                            (slot_stores struct_fields (element\<lparr>state := STATE_EMPTY\<rparr>)
                               (fold pru_mark_empty used (ring_buffer s) ! i))
                        @ [SlotStore i element]\<rparr>
           \<and> state (fold pru_mark_empty used (ring_buffer s) ! i) = STATE_EMPTY
           \<and> (used = []) = (state (ring_buffer s ! i) = STATE_EMPTY)
           \<and> state element \<noteq> STATE_EMPTY
           \<and> first_mark i used"
proof -
  from run have ne: "state element \<noteq> STATE_EMPTY"
    by (auto simp: pru_enqueue_segment_def Let_def split: if_splits)
  from run ne obtain s1 j where n: "next_queue_element c s = Done (s1, j)"
    by (auto simp: pru_enqueue_segment_def Let_def split: outcome.splits)
  from next_queue_element_Done [OF n] obtain used rest where
    u: "j = unat (queue_pos s mod QUEUE_LEN c)" "events s = used @ rest"
       "s1 = s\<lparr>ring_buffer := fold pru_mark_empty used (ring_buffer s),
                     queue_pos := queue_pos s mod QUEUE_LEN c + 1,
                     events := rest,
                     trace := trace s @ wakeups used\<rparr>"
       "state (fold pru_mark_empty used (ring_buffer s) ! j) = STATE_EMPTY"
       "(used = []) = (state (ring_buffer s ! j) = STATE_EMPTY)"
       "j < length (ring_buffer s) \<longrightarrow> first_mark j used"
    by blast
  have ji: "j = i" using u(1) i by simp
  have el: "element\<lparr>state := STATE_EMPTY, state := state element\<rparr> = element" by simp
  from run ne n ji len have
    "s' = s1\<lparr>ring_buffer := (ring_buffer s1)[i := element],
            trace := trace s1 @ map (SlotStore i)
                            (slot_stores struct_fields (element\<lparr>state := STATE_EMPTY\<rparr>)
                               (ring_buffer s1 ! i))
                        @ [SlotStore i element]\<rparr>"
    unfolding u(3) by (auto simp add: pru_enqueue_segment_def Let_def last_struct_copy)
  then show ?thesis using u(2,4,5,6) ji ne len unfolding u(3)
    by (intro exI [of _ used] exI [of _ rest]) simp
qed

lemma enqueue_Blocked_iff:
  assumes "i < length (ring_buffer s)" "i = unat (queue_pos s mod QUEUE_LEN c)"
  shows "(pru_enqueue_segment c element s = Blocked)
     = (state element \<noteq> STATE_EMPTY \<and> state (ring_buffer s ! i) \<noteq> STATE_EMPTY
        \<and> (\<forall>ev \<in> set (events s). i \<notin> set ev))"
  using next_queue_element_Blocked_iff [OF assms]
  by (auto simp add: pru_enqueue_segment_def Let_def split: outcome.splits prod.splits)

lemma enqueue_free:
  assumes len: "i < length (ring_buffer s)" and i: "i = unat (queue_pos s mod QUEUE_LEN c)"
    and free: "state (ring_buffer s ! i) = STATE_EMPTY" and ne: "state element \<noteq> STATE_EMPTY"
  shows "pru_enqueue_segment c element s =
     Done (s\<lparr>ring_buffer := (ring_buffer s)[i := element],
              queue_pos := queue_pos s mod QUEUE_LEN c + 1,
              trace := trace s
                 @ map (SlotStore i)
                     (slot_stores struct_fields (element\<lparr>state := STATE_EMPTY\<rparr>) (ring_buffer s ! i))
                 @ [SlotStore i element]\<rparr>,
           element\<lparr>state := STATE_EMPTY\<rparr>)"
  using assms
  by (simp add: pru_enqueue_segment_def next_queue_element_def Let_def wait_slot_empty_free
        last_struct_copy)

text \<open>The slot filled and the cursor after a call that returns.\<close>

lemma enqueue_cursor:
  assumes q: "QUEUE_LEN c \<noteq> 0" and len: "length (ring_buffer s) = unat (QUEUE_LEN c)"
    and run: "pru_enqueue_segment c element s = Done (s', e')"
  shows "ring_buffer s' ! unat (queue_pos s mod QUEUE_LEN c) = element
       \<and> queue_pos s' = queue_pos s mod QUEUE_LEN c + 1
       \<and> unat (queue_pos s') mod unat (QUEUE_LEN c)
           = (unat (queue_pos s) + 1) mod unat (QUEUE_LEN c)"
proof -
  let ?i = "unat (queue_pos s mod QUEUE_LEN c)"
  have lt: "?i < unat (QUEUE_LEN c)" using q by (rule unat_mod_less)
  then have li: "?i < length (ring_buffer s)" using len by simp
  from enqueue_Done [OF li refl run] obtain used rest where
    s': "s' = s\<lparr>ring_buffer := (fold pru_mark_empty used (ring_buffer s))[?i := element],
                     queue_pos := queue_pos s mod QUEUE_LEN c + 1,
                     events := rest,
                     trace := trace s @ wakeups used
                        @ map (SlotStore ?i)
                            (slot_stores struct_fields (element\<lparr>state := STATE_EMPTY\<rparr>)
                               (fold pru_mark_empty used (ring_buffer s) ! ?i))
                        @ [SlotStore ?i element]\<rparr>"
    by blast
  have a: "ring_buffer s' ! ?i = element" unfolding s' using li by simp
  have b: "queue_pos s' = queue_pos s mod QUEUE_LEN c + 1" unfolding s' by simp
  have "unat (queue_pos s') = unat (queue_pos s) mod unat (QUEUE_LEN c) + 1"
    unfolding b using lt by (simp add: unat_succ_below unat_mod)
  then have c: "unat (queue_pos s') mod unat (QUEUE_LEN c)
           = (unat (queue_pos s) + 1) mod unat (QUEUE_LEN c)"
    by (simp add: mod_Suc_eq)
  from a b c show ?thesis by blast
qed

subsection \<open>The fresh channel\<close>

lemma fresh_facts:
  "length (ring_buffer (map_pru_communication c s)) = unat (QUEUE_LEN c)"
  "queue_pos (map_pru_communication c s) = 0"
  "events (map_pru_communication c s) = events s"
  "trace (map_pru_communication c s) = trace s"
  by (simp_all add: map_pru_communication_def)

lemma fresh_slot_empty:
  "i < unat (QUEUE_LEN c) \<Longrightarrow>
   state (ring_buffer (map_pru_communication c s) ! i) = STATE_EMPTY"
  by (simp add: map_pru_communication_def)

lemma example_ring:
  "ring_buffer (map_pru_communication example_constants s)
     = replicate 4 ((zero_segment example_constants)\<lparr>state := STATE_EMPTY\<rparr>)"
  by (simp add: map_pru_communication_def example_constants_def)

text \<open>A run of calls that all find their slot free.\<close>

lemma enqueue_all_free:
  assumes "length (ring_buffer s) = unat (QUEUE_LEN c)"
    and "unat (queue_pos s) + length es \<le> unat (QUEUE_LEN c)"
    and "\<forall>i. unat (queue_pos s) \<le> i \<and> i < unat (QUEUE_LEN c)
            \<longrightarrow> state (ring_buffer s ! i) = STATE_EMPTY"
    and "\<forall>e \<in> set es. state e \<noteq> STATE_EMPTY"
  shows "\<exists>s'. enqueue_all c es s = Done s'
           \<and> events s' = events s
           \<and> count_list (trace s') WaitEvent = count_list (trace s) WaitEvent
           \<and> length (ring_buffer s') = unat (QUEUE_LEN c)
           \<and> unat (queue_pos s') = unat (queue_pos s) + length es
           \<and> (\<forall>j < length es. ring_buffer s' ! (unat (queue_pos s) + j) = es ! j)
           \<and> (\<forall>i < unat (queue_pos s). ring_buffer s' ! i = ring_buffer s ! i)
           \<and> (\<forall>i. unat (queue_pos s) + length es \<le> i \<and> i < unat (QUEUE_LEN c)
                 \<longrightarrow> state (ring_buffer s' ! i) = STATE_EMPTY)"
  using assms
proof (induction es arbitrary: s)
  case Nil
  then show ?case by simp
next
  case (Cons e es)
  let ?i = "unat (queue_pos s)"
  have lt: "?i < unat (QUEUE_LEN c)" using Cons.prems(2) by simp
  then have m: "queue_pos s mod QUEUE_LEN c = queue_pos s" by (rule word_mod_small)
  have free: "state (ring_buffer s ! ?i) = STATE_EMPTY" using Cons.prems(3) lt by simp
  have ne: "state e \<noteq> STATE_EMPTY" using Cons.prems(4) by simp
  let ?s1 = "s\<lparr>ring_buffer := (ring_buffer s)[?i := e],
              queue_pos := queue_pos s mod QUEUE_LEN c + 1,
              trace := trace s
                 @ map (SlotStore ?i)
                     (slot_stores struct_fields (e\<lparr>state := STATE_EMPTY\<rparr>) (ring_buffer s ! ?i))
                 @ [SlotStore ?i e]\<rparr>"
  have step: "pru_enqueue_segment c e s = Done (?s1, e\<lparr>state := STATE_EMPTY\<rparr>)"
    using lt free ne Cons.prems(1) by (intro enqueue_free) (simp_all add: m)
  have q1: "unat (queue_pos ?s1) = ?i + 1" using lt by (simp add: m unat_succ_below)
  have p1: "length (ring_buffer ?s1) = unat (QUEUE_LEN c)" using Cons.prems(1) by simp
  have p2: "unat (queue_pos ?s1) + length es \<le> unat (QUEUE_LEN c)"
    using Cons.prems(2) q1 by simp
  have p3: "\<forall>i. unat (queue_pos ?s1) \<le> i \<and> i < unat (QUEUE_LEN c)
            \<longrightarrow> state (ring_buffer ?s1 ! i) = STATE_EMPTY"
    using Cons.prems(3) q1 by simp
  have p4: "\<forall>e \<in> set es. state e \<noteq> STATE_EMPTY" using Cons.prems(4) by simp
  from Cons.IH [OF p1 p2 p3 p4] obtain s' where
    r: "enqueue_all c es ?s1 = Done s'" "events s' = events ?s1"
       "count_list (trace s') WaitEvent = count_list (trace ?s1) WaitEvent"
       "length (ring_buffer s') = unat (QUEUE_LEN c)"
       "unat (queue_pos s') = unat (queue_pos ?s1) + length es"
       "\<forall>j < length es. ring_buffer s' ! (unat (queue_pos ?s1) + j) = es ! j"
       "\<forall>i < unat (queue_pos ?s1). ring_buffer s' ! i = ring_buffer ?s1 ! i"
       "\<forall>i. unat (queue_pos ?s1) + length es \<le> i \<and> i < unat (QUEUE_LEN c)
                 \<longrightarrow> state (ring_buffer s' ! i) = STATE_EMPTY"
    by blast
  have run: "enqueue_all c (e # es) s = Done s'" using step r(1) by simp
  have ev: "events s' = events s" using r(2) by simp
  have cnt: "count_list (trace s') WaitEvent = count_list (trace s) WaitEvent"
    using r(3) by (simp add: no_wait_in_stores)
  have qp: "unat (queue_pos s') = ?i + length (e # es)" using r(5) q1 by simp
  have at_i: "ring_buffer s' ! ?i = e"
    using r(7) q1 lt Cons.prems(1) by simp
  have filled: "\<forall>j < length (e # es). ring_buffer s' ! (?i + j) = (e # es) ! j"
  proof (intro allI impI)
    fix j assume "j < length (e # es)"
    then show "ring_buffer s' ! (?i + j) = (e # es) ! j"
      using at_i r(6) q1 by (cases j) simp_all
  qed
  have below: "\<forall>i < ?i. ring_buffer s' ! i = ring_buffer s ! i"
    using r(7) q1 by simp
  have above: "\<forall>i. ?i + length (e # es) \<le> i \<and> i < unat (QUEUE_LEN c)
                 \<longrightarrow> state (ring_buffer s' ! i) = STATE_EMPTY"
    using r(8) q1 by simp
  show ?case
    using run ev cnt r(4) qp filled below above by (intro exI [of _ s']) blast
qed

text \<open>The call that follows one full round on a fresh channel.\<close>

lemma fifth_enqueue:
  assumes q: "QUEUE_LEN c \<noteq> 0" and n: "length es = unat (QUEUE_LEN c)"
    and ne: "\<forall>x \<in> set es. state x \<noteq> STATE_EMPTY" and e: "state e \<noteq> STATE_EMPTY"
  shows "\<exists>s4. enqueue_all c es (map_pru_communication c s0) = Done s4
           \<and> count_list (trace s4) WaitEvent = count_list (trace s0) WaitEvent
           \<and> (pru_enqueue_segment c e s4 = Blocked) = (\<forall>ev \<in> set (events s0). 0 \<notin> set ev)
           \<and> (\<exists>s5 e'. pru_enqueue_segment c e s4 = Done (s5, e'))
                = (\<exists>ev \<in> set (events s0). 0 \<in> set ev)
           \<and> (\<forall>s5 e'. pru_enqueue_segment c e s4 = Done (s5, e') \<longrightarrow>
                 ring_buffer s5 ! 0 = e \<and> queue_pos s5 = 1
                 \<and> count_list (trace s4) WaitEvent < count_list (trace s5) WaitEvent
                 \<and> (\<exists>used. events s0 = used @ events s5 \<and> 0 \<in> set (concat used)))"
proof -
  let ?f = "map_pru_communication c s0"
  have "\<exists>s'. enqueue_all c es ?f = Done s'
           \<and> events s' = events ?f
           \<and> count_list (trace s') WaitEvent = count_list (trace ?f) WaitEvent
           \<and> length (ring_buffer s') = unat (QUEUE_LEN c)
           \<and> unat (queue_pos s') = unat (queue_pos ?f) + length es
           \<and> (\<forall>j < length es. ring_buffer s' ! (unat (queue_pos ?f) + j) = es ! j)
           \<and> (\<forall>i < unat (queue_pos ?f). ring_buffer s' ! i = ring_buffer ?f ! i)
           \<and> (\<forall>i. unat (queue_pos ?f) + length es \<le> i \<and> i < unat (QUEUE_LEN c)
                 \<longrightarrow> state (ring_buffer s' ! i) = STATE_EMPTY)"
    using n ne by (intro enqueue_all_free) (simp_all add: fresh_facts fresh_slot_empty)
  then obtain s4 where
    r: "enqueue_all c es ?f = Done s4" "events s4 = events s0"
       "count_list (trace s4) WaitEvent = count_list (trace s0) WaitEvent"
       "length (ring_buffer s4) = unat (QUEUE_LEN c)"
       "unat (queue_pos s4) = length es"
       "\<forall>j < length es. ring_buffer s4 ! j = es ! j"
    by (auto simp: fresh_facts)
  have pos: "0 < unat (QUEUE_LEN c)" using q by (simp add: unat_gt_0)
  have "queue_pos s4 = QUEUE_LEN c" using r(5) n by (simp add: word_unat_eq_iff)
  then have m: "queue_pos s4 mod QUEUE_LEN c = 0" by simp
  have i0: "(0::nat) = unat (queue_pos s4 mod QUEUE_LEN c)" by (simp add: m)
  have l0: "0 < length (ring_buffer s4)" using r(4) pos by simp
  have "ring_buffer s4 ! 0 = es ! 0" using r(6) n pos by simp
  moreover have "es ! 0 \<in> set es" using n pos by simp
  ultimately have busy: "state (ring_buffer s4 ! 0) \<noteq> STATE_EMPTY" using ne by simp
  have blocked: "(pru_enqueue_segment c e s4 = Blocked) = (\<forall>ev \<in> set (events s0). 0 \<notin> set ev)"
    using enqueue_Blocked_iff [OF l0 i0, of e] e busy r(2) by simp
  have returns: "ring_buffer s5 ! 0 = e \<and> queue_pos s5 = 1
                 \<and> count_list (trace s4) WaitEvent < count_list (trace s5) WaitEvent
                 \<and> (\<exists>used. events s0 = used @ events s5 \<and> 0 \<in> set (concat used))"
    if run: "pru_enqueue_segment c e s4 = Done (s5, e')" for s5 e'
  proof -
    from enqueue_Done [OF l0 i0 run] obtain used rest where
      u: "events s4 = used @ rest"
         "s5 = s4\<lparr>ring_buffer := (fold pru_mark_empty used (ring_buffer s4))[0 := e],
                     queue_pos := queue_pos s4 mod QUEUE_LEN c + 1,
                     events := rest,
                     trace := trace s4 @ wakeups used
                        @ map (SlotStore 0)
                            (slot_stores struct_fields (e\<lparr>state := STATE_EMPTY\<rparr>)
                               (fold pru_mark_empty used (ring_buffer s4) ! 0))
                        @ [SlotStore 0 e]\<rparr>"
         "state (fold pru_mark_empty used (ring_buffer s4) ! 0) = STATE_EMPTY"
         "(used = []) = (state (ring_buffer s4 ! 0) = STATE_EMPTY)"
      by blast
    have a: "ring_buffer s5 ! 0 = e" unfolding u(2) using l0 by simp
    have b: "queue_pos s5 = 1" unfolding u(2) by (simp add: m)
    have "used \<noteq> []" using u(4) busy by simp
    then have c: "count_list (trace s4) WaitEvent < count_list (trace s5) WaitEvent"
      unfolding u(2) by (simp add: count_wakeups no_wait_in_stores)
    have d: "0 \<in> set (concat used)"
      using u(3) busy l0 by (simp add: fold_pru_mark_empty state_fold_mark_empty split: if_splits)
    have "events s5 = rest" unfolding u(2) by simp
    with u(1) r(2) have "events s0 = used @ events s5" by simp
    with a b c d show ?thesis by blast
  qed
  have "pru_enqueue_segment c e s4 \<noteq> Abort" using e by (rule enqueue_not_Abort)
  with blocked have completes:
    "(\<exists>s5 e'. pru_enqueue_segment c e s4 = Done (s5, e'))
       = (\<exists>ev \<in> set (events s0). 0 \<in> set ev)"
    by (cases "pru_enqueue_segment c e s4") auto
  from r(1,3) blocked completes returns show ?thesis by blast
qed

text \<open>The first call on the example channel returns.\<close>

lemma example_enqueue:
  "pru_enqueue_segment example_constants (filled 5)
     (map_pru_communication example_constants unopened) \<noteq> Blocked"
  "pru_enqueue_segment example_constants (filled 5)
     (map_pru_communication example_constants unopened) \<noteq> Abort"
proof -
  let ?f = "map_pru_communication example_constants unopened"
  have i: "(0::nat) = unat (queue_pos ?f mod QUEUE_LEN example_constants)"
    by (simp add: fresh_facts)
  have l: "0 < length (ring_buffer ?f)" by (simp add: fresh_facts example_constants_def)
  have "state (ring_buffer ?f ! 0) = STATE_EMPTY"
    by (rule fresh_slot_empty) (simp add: example_constants_def)
  then show "pru_enqueue_segment example_constants (filled 5) ?f \<noteq> Blocked"
    using enqueue_Blocked_iff [OF l i, of "filled 5"] by simp
  show "pru_enqueue_segment example_constants (filled 5) ?f \<noteq> Abort"
    by (rule enqueue_not_Abort) (simp add: filled_def STATE_EMPTY_def)
qed

subsection \<open>Shutdown\<close>



subsection \<open>The pending slots\<close>

text \<open>
  The pending slots: the invariant holds on a fresh channel and is kept by enqueue and by
  the coprocessor consuming the oldest pending slot; when the wait for the queue returns
  after a consumption in enqueue order, no slot is pending.
\<close>

lemma queue_inv_busy:
  assumes "queue_inv c s ps" "i < unat (QUEUE_LEN c)"
  shows "(state (ring_buffer s ! i) \<noteq> STATE_EMPTY) = (i \<in> set ps)"
proof -
  from assms(1) have
    m: "map (\<lambda>m. state m \<noteq> STATE_EMPTY) (ring_buffer s)
           = map (\<lambda>i. i \<in> set ps) [0 ..< unat (QUEUE_LEN c)]"
    and l: "length (ring_buffer s) = unat (QUEUE_LEN c)"
    by (simp_all add: queue_inv_def)
  have "map (\<lambda>m. state m \<noteq> STATE_EMPTY) (ring_buffer s) ! i
          = map (\<lambda>i. i \<in> set ps) [0 ..< unat (QUEUE_LEN c)] ! i"
    by (simp only: m)
  then show ?thesis using assms(2) l by simp
qed

lemma queue_invI:
  assumes "length (ring_buffer s) = unat (QUEUE_LEN c)" "distinct ps"
    and "\<forall>j \<in> set ps. j < unat (QUEUE_LEN c)"
    and "\<forall>j < unat (QUEUE_LEN c). (state (ring_buffer s ! j) \<noteq> STATE_EMPTY) = (j \<in> set ps)"
    and "ps = [] \<or> last ps = unat ((queue_pos s - 1) mod QUEUE_LEN c)"
  shows "queue_inv c s ps"
proof -
  have "map (\<lambda>m. state m \<noteq> STATE_EMPTY) (ring_buffer s)
           = map (\<lambda>i. i \<in> set ps) [0 ..< unat (QUEUE_LEN c)]"
    using assms(1,4) by (intro nth_equalityI) simp_all
  with assms show ?thesis by (simp add: queue_inv_def list_all_iff)
qed

lemma queue_inv_fresh: "queue_inv c (map_pru_communication c s) []"
  by (rule queue_invI) (simp_all add: fresh_facts fresh_slot_empty)

lemma queue_inv_consume:
  assumes "queue_inv c s (p # ps)"
  shows "queue_inv c (pru_consume [p] s) ps"
proof (rule queue_invI)
  from assms have len: "length (ring_buffer s) = unat (QUEUE_LEN c)"
    and dist: "distinct (p # ps)"
    and bound: "\<forall>j \<in> set (p # ps). j < unat (QUEUE_LEN c)"
    and lst: "last (p # ps) = unat ((queue_pos s - 1) mod QUEUE_LEN c)"
    by (simp_all add: queue_inv_def list_all_iff)
  show "length (ring_buffer (pru_consume [p] s)) = unat (QUEUE_LEN c)"
    using len by (simp add: pru_consume_def)
  show "distinct ps" using dist by simp
  show "\<forall>j \<in> set ps. j < unat (QUEUE_LEN c)" using bound by simp
  show "ps = [] \<or> last ps = unat ((queue_pos (pru_consume [p] s) - 1) mod QUEUE_LEN c)"
    using lst by (cases ps) (simp_all add: pru_consume_def)
  show "\<forall>j < unat (QUEUE_LEN c).
          (state (ring_buffer (pru_consume [p] s) ! j) \<noteq> STATE_EMPTY) = (j \<in> set ps)"
  proof (intro allI impI)
    fix j assume j: "j < unat (QUEUE_LEN c)"
    have "(state (ring_buffer s ! j) \<noteq> STATE_EMPTY) = (j \<in> set (p # ps))"
      using assms j by (rule queue_inv_busy)
    then show "(state (ring_buffer (pru_consume [p] s) ! j) \<noteq> STATE_EMPTY) = (j \<in> set ps)"
      using j len dist by (auto simp: pru_consume_def state_pru_mark_empty)
  qed
qed

lemma queue_inv_enqueue:
  assumes q: "QUEUE_LEN c \<noteq> 0" and inv: "queue_inv c s ps"
    and run: "pru_enqueue_segment c element s = Done (s', e')"
    and ord: "in_enqueue_order ps (consumed_events s s')"
  shows "queue_inv c s'
           (drop (length (concat (consumed_events s s'))) ps @ [unat (queue_pos s mod QUEUE_LEN c)])"
proof -
  let ?i = "unat (queue_pos s mod QUEUE_LEN c)"
  have len: "length (ring_buffer s) = unat (QUEUE_LEN c)"
    and dist: "distinct ps"
    and bound: "\<forall>j \<in> set ps. j < unat (QUEUE_LEN c)"
    using inv by (simp_all add: queue_inv_def list_all_iff)
  have iq: "?i < unat (QUEUE_LEN c)" using q by (rule unat_mod_less)
  then have li: "?i < length (ring_buffer s)" using len by simp
  from enqueue_Done [OF li refl run] obtain used rest where
    e: "events s = used @ rest"
    and s': "s' = s\<lparr>ring_buffer := (fold pru_mark_empty used (ring_buffer s))[?i := element],
                     queue_pos := queue_pos s mod QUEUE_LEN c + 1,
                     events := rest,
                     trace := trace s @ wakeups used
                        @ map (SlotStore ?i)
                            (slot_stores struct_fields (element\<lparr>state := STATE_EMPTY\<rparr>)
                               (fold pru_mark_empty used (ring_buffer s) ! ?i))
                        @ [SlotStore ?i element]\<rparr>"
    and free: "state (fold pru_mark_empty used (ring_buffer s) ! ?i) = STATE_EMPTY"
    and ne: "state element \<noteq> STATE_EMPTY"
    by blast
  have "events s' = rest" unfolding s' by simp
  then have cu: "consumed_events s s' = used" by (simp add: consumed_events_def e)
  with ord have pre: "concat used = take (length (concat used)) ps"
    by (simp add: in_enqueue_order_def)
  define later where "later = drop (length (concat used)) ps"
  have ps: "ps = concat used @ later"
    unfolding later_def by (subst pre) simp
  have dl: "distinct later" "set (concat used) \<inter> set later = {}"
    using dist ps by (metis distinct_append)+
  have st: "(state (fold pru_mark_empty used (ring_buffer s) ! j) \<noteq> STATE_EMPTY) = (j \<in> set later)"
    if j: "j < unat (QUEUE_LEN c)" for j
  proof -
    have "(state (ring_buffer s ! j) \<noteq> STATE_EMPTY) = (j \<in> set ps)"
      using inv j by (rule queue_inv_busy)
    then show ?thesis
      using j len dl(2) ps by (auto simp: fold_pru_mark_empty state_fold_mark_empty)
  qed
  have inl: "?i \<notin> set later" using st [OF iq] free by simp
  have "queue_inv c s' (later @ [?i])"
  proof (rule queue_invI)
    show "length (ring_buffer s') = unat (QUEUE_LEN c)" unfolding s' using len by simp
    show "distinct (later @ [?i])" using dl(1) inl by simp
    show "\<forall>j \<in> set (later @ [?i]). j < unat (QUEUE_LEN c)"
      using bound iq ps by auto
    show "later @ [?i] = [] \<or> last (later @ [?i]) = unat ((queue_pos s' - 1) mod QUEUE_LEN c)"
      unfolding s' using last_insert_after_enqueue [OF q] by simp
    show "\<forall>j < unat (QUEUE_LEN c).
            (state (ring_buffer s' ! j) \<noteq> STATE_EMPTY) = (j \<in> set (later @ [?i]))"
    proof (intro allI impI)
      fix j assume j: "j < unat (QUEUE_LEN c)"
      show "(state (ring_buffer s' ! j) \<noteq> STATE_EMPTY) = (j \<in> set (later @ [?i]))"
        unfolding s' using st [OF j] j len ne by (cases "j = ?i") simp_all
    qed
  qed
  then show ?thesis by (simp add: cu later_def)
qed

lemma wait_drained_all:
  assumes q: "QUEUE_LEN c \<noteq> 0" and inv: "queue_inv c s ps"
    and run: "pru_wait_queue_empty c s = Done s'"
    and ord: "in_enqueue_order ps (consumed_events s s')"
    and i: "i < unat (QUEUE_LEN c)"
  shows "state (ring_buffer s' ! i) = STATE_EMPTY"
proof -
  let ?idx = "unat ((queue_pos s - 1) mod QUEUE_LEN c)"
  from run have "wait_slot_empty ?idx s = Done s'"
    by (simp add: pru_wait_queue_empty_def Let_def)
  from wait_slot_empty_Done [OF this] obtain used rest where
    e: "events s = used @ rest"
    and s': "s' = s\<lparr>ring_buffer := fold pru_mark_empty used (ring_buffer s),
                  events := rest, trace := trace s @ wakeups used\<rparr>"
    and ex: "state (ring_buffer s' ! ?idx) = STATE_EMPTY"
    by blast
  have "events s' = rest" unfolding s' by simp
  then have "consumed_events s s' = used" by (simp add: consumed_events_def e)
  with ord have pre: "concat used = take (length (concat used)) ps"
    by (simp add: in_enqueue_order_def)
  define later where "later = drop (length (concat used)) ps"
  have ps: "ps = concat used @ later"
    unfolding later_def by (subst pre) simp
  have len: "length (ring_buffer s) = unat (QUEUE_LEN c)"
    and dist: "distinct ps"
    and bound: "\<forall>j \<in> set ps. j < unat (QUEUE_LEN c)"
    and lst: "ps = [] \<or> last ps = ?idx"
    using inv by (simp_all add: queue_inv_def list_all_iff)
  have st: "state (ring_buffer s' ! j)
              = (if j \<in> set (concat used) then STATE_EMPTY else state (ring_buffer s ! j))"
    if "j < unat (QUEUE_LEN c)" for j
    unfolding s' using that len by (simp add: fold_pru_mark_empty state_fold_mark_empty)
  have "later = []"
  proof (rule ccontr)
    assume ne: "later \<noteq> []"
    then have "last ps = last later" "ps \<noteq> []" using ps by simp_all
    with lst have l: "last later = ?idx" by simp
    have in_later: "?idx \<in> set later" using ne l last_in_set by metis
    then have in_ps: "?idx \<in> set ps" using ps by simp
    have "?idx \<notin> set (concat used)" using dist ps in_later by (metis disjoint_iff distinct_append)
    moreover have "?idx < unat (QUEUE_LEN c)" using in_ps bound by simp
    moreover have "state (ring_buffer s ! ?idx) \<noteq> STATE_EMPTY"
      using queue_inv_busy [OF inv \<open>?idx < unat (QUEUE_LEN c)\<close>] in_ps by simp
    ultimately have "state (ring_buffer s' ! ?idx) \<noteq> STATE_EMPTY" by (simp add: st)
    with ex show False by simp
  qed
  then have all: "set ps = set (concat used)" using ps by simp
  show ?thesis
    using st [OF i] queue_inv_busy [OF inv i] all by (cases "i \<in> set ps") simp_all
qed

lemma wait_drained_consumed:
  assumes q: "QUEUE_LEN c \<noteq> 0" and inv: "queue_inv c s ps"
    and run: "pru_wait_queue_empty c s = Done s'"
    and ord: "in_enqueue_order ps (consumed_events s s')"
  shows "concat (consumed_events s s') = ps"
proof -
  from run have "wait_slot_empty (unat ((queue_pos s - 1) mod QUEUE_LEN c)) s = Done s'"
    by (simp add: pru_wait_queue_empty_def Let_def)
  from wait_slot_empty_Done [OF this] obtain used rest where
    e: "events s = used @ rest"
    and s': "s' = s\<lparr>ring_buffer := fold pru_mark_empty used (ring_buffer s),
                  events := rest, trace := trace s @ wakeups used\<rparr>"
    by blast
  have "events s' = rest" unfolding s' by simp
  then have cu: "consumed_events s s' = used" by (simp add: consumed_events_def e)
  with ord have pre: "concat used = take (length (concat used)) ps"
    by (simp add: in_enqueue_order_def)
  define later where "later = drop (length (concat used)) ps"
  have ps: "ps = concat used @ later"
    unfolding later_def by (subst pre) simp
  have len: "length (ring_buffer s) = unat (QUEUE_LEN c)"
    and dist: "distinct ps"
    and bound: "\<forall>j \<in> set ps. j < unat (QUEUE_LEN c)"
    using inv by (simp_all add: queue_inv_def list_all_iff)
  have "j \<notin> set later" for j
  proof
    assume j: "j \<in> set later"
    then have in_ps: "j \<in> set ps" using ps by simp
    then have lt: "j < unat (QUEUE_LEN c)" using bound by simp
    have "j \<notin> set (concat used)" using dist ps j by (metis disjoint_iff distinct_append)
    moreover have "state (ring_buffer s ! j) \<noteq> STATE_EMPTY"
      using queue_inv_busy [OF inv lt] in_ps by simp
    ultimately have "state (ring_buffer s' ! j) \<noteq> STATE_EMPTY"
      unfolding s' using lt len by (simp add: fold_pru_mark_empty state_fold_mark_empty)
    with wait_drained_all [OF q inv run ord lt] show False by simp
  qed
  then have "later = []" by (cases later) auto
  with ps cu show ?thesis by simp
qed

lemma queue_inv_drained:
  assumes q: "QUEUE_LEN c \<noteq> 0" and inv: "queue_inv c s ps"
    and run: "pru_wait_queue_empty c s = Done s'"
    and ord: "in_enqueue_order ps (consumed_events s s')"
  shows "queue_inv c s' []"
proof (rule queue_invI)
  from run have "wait_slot_empty (unat ((queue_pos s - 1) mod QUEUE_LEN c)) s = Done s'"
    by (simp add: pru_wait_queue_empty_def Let_def)
  from wait_slot_empty_Done [OF this] obtain used rest where
    "s' = s\<lparr>ring_buffer := fold pru_mark_empty used (ring_buffer s),
            events := rest, trace := trace s @ wakeups used\<rparr>"
    by blast
  then have "length (ring_buffer s') = length (ring_buffer s)" by simp
  then show "length (ring_buffer s') = unat (QUEUE_LEN c)"
    using inv by (simp add: queue_inv_def)
  show "\<forall>j < unat (QUEUE_LEN c). (state (ring_buffer s' ! j) \<noteq> STATE_EMPTY) = (j \<in> set [])"
    using wait_drained_all [OF q inv run ord] by simp
qed simp_all

lemma two_enqueued_facts:
  "enqueue_all example_constants [filled 1, filled 2]
     (map_pru_communication example_constants draining) = Done two_enqueued"
  "queue_inv example_constants two_enqueued [0, 1]"
proof -
  let ?c = example_constants
  let ?f = "map_pru_communication ?c draining"
  let ?s1 = "?f\<lparr>ring_buffer := (ring_buffer ?f)[0 := filled 1],
              queue_pos := queue_pos ?f mod QUEUE_LEN ?c + 1,
              trace := trace ?f
                 @ map (SlotStore 0)
                     (slot_stores struct_fields ((filled 1)\<lparr>state := STATE_EMPTY\<rparr>) (ring_buffer ?f ! 0))
                 @ [SlotStore 0 (filled 1)]\<rparr>"
  let ?s2 = "?s1\<lparr>ring_buffer := (ring_buffer ?s1)[1 := filled 2],
              queue_pos := queue_pos ?s1 mod QUEUE_LEN ?c + 1,
              trace := trace ?s1
                 @ map (SlotStore 1)
                     (slot_stores struct_fields ((filled 2)\<lparr>state := STATE_EMPTY\<rparr>) (ring_buffer ?s1 ! 1))
                 @ [SlotStore 1 (filled 2)]\<rparr>"
  have q: "QUEUE_LEN ?c \<noteq> 0" by (simp add: example_constants_def)
  have ne: "state (filled d) \<noteq> STATE_EMPTY" for d by (simp add: filled_def STATE_EMPTY_def)
  have q0: "unat (queue_pos ?f mod QUEUE_LEN ?c) = 0" by (simp add: fresh_facts)
  have q1: "(queue_pos ?f mod QUEUE_LEN ?c + 1) mod QUEUE_LEN ?c = 1"
    by (simp add: fresh_facts example_constants_def)
  have a: "pru_enqueue_segment ?c (filled 1) ?f = Done (?s1, (filled 1)\<lparr>state := STATE_EMPTY\<rparr>)"
    by (rule enqueue_free)
       (simp_all add: fresh_facts ne fresh_slot_empty example_constants_def)
  have b: "pru_enqueue_segment ?c (filled 2) ?s1 = Done (?s2, (filled 2)\<lparr>state := STATE_EMPTY\<rparr>)"
    by (rule enqueue_free) (simp_all add: q1 ne example_ring)
  have p0: "queue_pos ?f mod QUEUE_LEN ?c = 0" by (simp add: fresh_facts)
  have s2: "?s2 = two_enqueued"
    by (simp add: two_enqueued_def Let_def p0 fresh_facts) (simp add: example_constants_def)
  show "enqueue_all ?c [filled 1, filled 2] ?f = Done two_enqueued"
    by (simp only: enqueue_all.simps a b s2 outcome.case prod.case)
  have i1: "queue_inv ?c ?s1 [0]"
    using queue_inv_enqueue [OF q queue_inv_fresh a] q0
    by (simp add: consumed_events_def in_enqueue_order_def)
  have "queue_inv ?c ?s2 [0, 1]"
    using queue_inv_enqueue [OF q i1 b] q1
    by (simp add: consumed_events_def in_enqueue_order_def)
  then show "queue_inv ?c two_enqueued [0, 1]" by (simp only: s2)
qed

lemma two_enqueued_drain:
  "pru_wait_queue_empty example_constants two_enqueued
     = Done (two_enqueued
          \<lparr>ring_buffer := pru_mark_empty [1] (pru_mark_empty [0] (ring_buffer two_enqueued)),
           events := [],
           trace := trace two_enqueued @ [WaitEvent, ClearEvent, WaitEvent, ClearEvent]\<rparr>)"
  by (simp add: pru_wait_queue_empty_def Let_def wait_slot_empty.simps two_enqueued_def
        example_ring example_constants_def fresh_facts draining_def filled_def STATE_EMPTY_def
        pru_mark_empty_def mark_empty_def)

lemma replicate4: "replicate 4 x = [x, x, x, x]"
  by (simp add: numeral_eq_Suc)

lemma two_enqueued_ring:
  "ring_buffer two_enqueued
     = [filled 1, filled 2,
        (zero_segment example_constants)\<lparr>state := STATE_EMPTY\<rparr>,
        (zero_segment example_constants)\<lparr>state := STATE_EMPTY\<rparr>]"
  by (simp add: two_enqueued_def Let_def example_ring replicate4)

lemma two_enqueued_states: "map state (ring_buffer two_enqueued) = [1, 1, 0, 0]"
  by (simp add: two_enqueued_ring filled_def STATE_EMPTY_def)

lemma two_enqueued_misc:
  "events two_enqueued = [[0], [1]]"
  "queue_pos two_enqueued = 2"
  by (simp_all add: two_enqueued_def Let_def fresh_facts draining_def unopened_def)

subsection \<open>Shutdown with flush: what a returning call has done, and when it blocks\<close>





section \<open>The claims of the specification\<close>

subsection \<open>Copy first, then flip the state\<close>



subsection \<open>The cursor\<close>

text \<open>
  Claim C2. A call of \<^verbatim>\<open>pru_enqueue_segment\<close> that returns has filled the slot at index
  \<^verbatim>\<open>queue_pos_ % QUEUE_LEN\<close> and leaves the cursor one behind that slot, which is the old
  cursor plus one modulo \<^verbatim>\<open>QUEUE_LEN\<close>. After one full round from a fresh channel
  (\<^verbatim>\<open>QUEUE_LEN\<close> calls, none of which waits; four calls for \<^verbatim>\<open>QUEUE_LEN = 4\<close>), the next
  call never returns unless an event of the coprocessor marks slot 0 Empty; when it
  returns, it has waited, the coprocessor has marked slot 0 Empty, the new segment is in
  slot 0 and the cursor is 1.
\<close>

theorem enqueue_cursor_wraps:
  assumes "QUEUE_LEN c \<noteq> 0"
  shows "(\<forall>s element s' e'.
            length (ring_buffer s) = unat (QUEUE_LEN c)
            \<and> pru_enqueue_segment c element s = Done (s', e') \<longrightarrow>
              ring_buffer s' ! unat (queue_pos s mod QUEUE_LEN c) = element
              \<and> queue_pos s' = queue_pos s mod QUEUE_LEN c + 1
              \<and> unat (queue_pos s') mod unat (QUEUE_LEN c)
                   = (unat (queue_pos s) + 1) mod unat (QUEUE_LEN c))
       \<and> (\<forall>es e s0.
            length es = unat (QUEUE_LEN c) \<and> (\<forall>x \<in> set es. state x \<noteq> STATE_EMPTY)
            \<and> state e \<noteq> STATE_EMPTY \<longrightarrow>
              (\<exists>s4. enqueue_all c es (map_pru_communication c s0) = Done s4
                 \<and> count_list (trace s4) WaitEvent = count_list (trace s0) WaitEvent
                 \<and> (pru_enqueue_segment c e s4 = Blocked)
                      = (\<forall>ev \<in> set (events s0). 0 \<notin> set ev)
                 \<and> (\<exists>s5 e'. pru_enqueue_segment c e s4 = Done (s5, e'))
                      = (\<exists>ev \<in> set (events s0). 0 \<in> set ev)
                 \<and> (\<forall>s5 e'. pru_enqueue_segment c e s4 = Done (s5, e') \<longrightarrow>
                       ring_buffer s5 ! 0 = e \<and> queue_pos s5 = 1
                       \<and> count_list (trace s4) WaitEvent < count_list (trace s5) WaitEvent
                       \<and> (\<exists>used. events s0 = used @ events s5 \<and> 0 \<in> set (concat used)))))"
proof (intro conjI allI impI)
  fix s element s' e'
  assume h: "length (ring_buffer s) = unat (QUEUE_LEN c)
            \<and> pru_enqueue_segment c element s = Done (s', e')"
  from enqueue_cursor [OF assms, of s element s' e'] h
  show "ring_buffer s' ! unat (queue_pos s mod QUEUE_LEN c) = element"
    and "queue_pos s' = queue_pos s mod QUEUE_LEN c + 1"
    and "unat (queue_pos s') mod unat (QUEUE_LEN c)
                   = (unat (queue_pos s) + 1) mod unat (QUEUE_LEN c)"
    by blast+
next
  fix es :: "MotionSegment list" and e :: MotionSegment and s0 :: pru_state
  assume "length es = unat (QUEUE_LEN c) \<and> (\<forall>x \<in> set es. state x \<noteq> STATE_EMPTY)
            \<and> state e \<noteq> STATE_EMPTY"
  then show "\<exists>s4. enqueue_all c es (map_pru_communication c s0) = Done s4
                 \<and> count_list (trace s4) WaitEvent = count_list (trace s0) WaitEvent
                 \<and> (pru_enqueue_segment c e s4 = Blocked)
                      = (\<forall>ev \<in> set (events s0). 0 \<notin> set ev)
                 \<and> (\<exists>s5 e'. pru_enqueue_segment c e s4 = Done (s5, e'))
                      = (\<exists>ev \<in> set (events s0). 0 \<in> set ev)
                 \<and> (\<forall>s5 e'. pru_enqueue_segment c e s4 = Done (s5, e') \<longrightarrow>
                       ring_buffer s5 ! 0 = e \<and> queue_pos s5 = 1
                       \<and> count_list (trace s4) WaitEvent < count_list (trace s5) WaitEvent
                       \<and> (\<exists>used. events s0 = used @ events s5 \<and> 0 \<in> set (concat used)))"
    using fifth_enqueue [OF assms, of es e s0] by blast
qed

theorem enqueue_cursor_wraps_witness:
  "QUEUE_LEN example_constants = 4
   \<and> (\<exists>s4. enqueue_all example_constants four
              (map_pru_communication example_constants unopened) = Done s4
          \<and> pru_enqueue_segment example_constants (filled 5) s4 = Blocked)
   \<and> (\<exists>s4 s5 e'.
          enqueue_all example_constants four
            (map_pru_communication example_constants (unopened\<lparr>events := [[0]]\<rparr>)) = Done s4
          \<and> pru_enqueue_segment example_constants (filled 5) s4 = Done (s5, e')
          \<and> ring_buffer s5 ! 0 = filled 5 \<and> queue_pos s5 = 1 \<and> events s5 = [])"
proof -
  have q: "QUEUE_LEN example_constants \<noteq> 0" by (simp add: example_constants_def)
  have hyp: "length four = unat (QUEUE_LEN example_constants)
            \<and> (\<forall>x \<in> set four. state x \<noteq> STATE_EMPTY)
            \<and> state (filled 5) \<noteq> STATE_EMPTY"
    by (simp add: four_def example_constants_def filled_def STATE_EMPTY_def)
  note inst = enqueue_cursor_wraps [OF q, THEN conjunct2, rule_format, OF hyp]
  from inst [of unopened] have a:
    "\<exists>s4. enqueue_all example_constants four
              (map_pru_communication example_constants unopened) = Done s4
          \<and> pru_enqueue_segment example_constants (filled 5) s4 = Blocked"
    by (auto simp: unopened_def)
  from inst [of "unopened\<lparr>events := [[0]]\<rparr>"] obtain s4 where
    s4: "enqueue_all example_constants four
            (map_pru_communication example_constants (unopened\<lparr>events := [[0]]\<rparr>)) = Done s4"
        "pru_enqueue_segment example_constants (filled 5) s4 \<noteq> Blocked"
        "\<forall>s5 e'. pru_enqueue_segment example_constants (filled 5) s4 = Done (s5, e') \<longrightarrow>
             ring_buffer s5 ! 0 = filled 5 \<and> queue_pos s5 = 1
             \<and> (\<exists>used. events (unopened\<lparr>events := [[0]]\<rparr>) = used @ events s5
                   \<and> 0 \<in> set (concat used))"
    by auto
  have "pru_enqueue_segment example_constants (filled 5) s4 \<noteq> Abort"
    using hyp by (intro enqueue_not_Abort) simp
  with s4(2) obtain s5 e' where
    d: "pru_enqueue_segment example_constants (filled 5) s4 = Done (s5, e')"
    by (cases "pru_enqueue_segment example_constants (filled 5) s4") auto
  with s4(3) obtain used where
    r: "ring_buffer s5 ! 0 = filled 5" "queue_pos s5 = 1"
       "[[0]] = used @ events s5" "0 \<in> set (concat used)"
    by auto
  have "events s5 = []" using r(3,4) by (cases used) auto
  with s4(1) d r(1,2) have b: "\<exists>s4 s5 e'.
          enqueue_all example_constants four
            (map_pru_communication example_constants (unopened\<lparr>events := [[0]]\<rparr>)) = Done s4
          \<and> pru_enqueue_segment example_constants (filled 5) s4 = Done (s5, e')
          \<and> ring_buffer s5 ! 0 = filled 5 \<and> queue_pos s5 = 1 \<and> events s5 = []"
    by blast
  show ?thesis using a b by (simp add: example_constants_def)
qed

subsection \<open>Enqueueing into a fresh channel\<close>

text \<open>
  Claim C3. On a channel that has just been opened, a sequence of at most \<^verbatim>\<open>QUEUE_LEN\<close>
  calls of \<^verbatim>\<open>pru_enqueue_segment\<close> (with segments whose state is not Empty), between which
  the coprocessor marks no slot Empty, returns without any call entering the wait loop:
  no event is taken and no \<^verbatim>\<open>prussdrv_pru_wait_event\<close> is traced.
\<close>

theorem enqueue_fresh_never_waits:
  assumes "length es \<le> unat (QUEUE_LEN c)" and "\<forall>e \<in> set es. state e \<noteq> STATE_EMPTY"
  shows "\<exists>s'. enqueue_all c es (map_pru_communication c s) = Done s'
           \<and> events s' = events s
           \<and> count_list (trace s') WaitEvent = count_list (trace s) WaitEvent"
proof -
  let ?f = "map_pru_communication c s"
  have "\<exists>s'. enqueue_all c es ?f = Done s'
           \<and> events s' = events ?f
           \<and> count_list (trace s') WaitEvent = count_list (trace ?f) WaitEvent
           \<and> length (ring_buffer s') = unat (QUEUE_LEN c)
           \<and> unat (queue_pos s') = unat (queue_pos ?f) + length es
           \<and> (\<forall>j < length es. ring_buffer s' ! (unat (queue_pos ?f) + j) = es ! j)
           \<and> (\<forall>i < unat (queue_pos ?f). ring_buffer s' ! i = ring_buffer ?f ! i)
           \<and> (\<forall>i. unat (queue_pos ?f) + length es \<le> i \<and> i < unat (QUEUE_LEN c)
                 \<longrightarrow> state (ring_buffer s' ! i) = STATE_EMPTY)"
    using assms by (intro enqueue_all_free) (simp_all add: fresh_facts fresh_slot_empty)
  then show ?thesis by (auto simp: fresh_facts)
qed

theorem enqueue_fresh_never_waits_witness:
  "length [filled 1, filled 2] \<le> unat (QUEUE_LEN example_constants)
   \<and> state (filled 1) \<noteq> STATE_EMPTY \<and> state (filled 2) \<noteq> STATE_EMPTY
   \<and> (\<exists>s'. enqueue_all example_constants [filled 1, filled 2]
               (map_pru_communication example_constants unopened) = Done s'
          \<and> events s' = [] \<and> count_list (trace s') WaitEvent = 0)"
  using enqueue_fresh_never_waits [of "[filled 1, filled 2]" example_constants unopened]
  by (simp add: example_constants_def filled_def STATE_EMPTY_def unopened_def)

subsection \<open>Waiting for the queue to drain\<close>

text \<open>
  Claim C4. \<^verbatim>\<open>pru_wait_queue_empty\<close> never aborts, and it never returns exactly when
  the slot filled last, at \<^verbatim>\<open>(queue_pos_ - 1) % QUEUE_LEN\<close>, is busy and no event of the
  coprocessor marks it Empty. When it returns, it has changed nothing but what the
  events it has taken brought: the ring buffer is the one before the call with the
  coprocessor's marks of these events, in which the slot filled last reads Empty; it has
  taken no event if that slot was Empty already, and otherwise the events up to the
  first that marks that slot. With a coprocessor that consumes in enqueue order, as the
  specification has it, the events taken have consumed every pending segment and every
  slot reads Empty: the call does not return while a segment that was enqueued before it
  is still unconsumed.
\<close>

theorem wait_queue_empty_drained:
  fixes c :: constants and s :: pru_state and ps :: "nat list"
  defines "i \<equiv> unat ((queue_pos s - 1) mod QUEUE_LEN c)"
  shows "pru_wait_queue_empty c s \<noteq> Abort
       \<and> (i < length (ring_buffer s) \<longrightarrow>
            (pru_wait_queue_empty c s = Blocked)
              = (state (ring_buffer s ! i) \<noteq> STATE_EMPTY
                 \<and> (\<forall>ev \<in> set (events s). i \<notin> set ev)))
       \<and> (\<forall>s'. pru_wait_queue_empty c s = Done s' \<longrightarrow>
            (\<exists>used rest.
               events s = used @ rest
             \<and> s' = s\<lparr>ring_buffer := fold pru_mark_empty used (ring_buffer s),
                       events := rest,
                       trace := trace s @ wakeups used\<rparr>
             \<and> consumed_events s s' = used
             \<and> state (ring_buffer s' ! i) = STATE_EMPTY
             \<and> (used = []) = (state (ring_buffer s ! i) = STATE_EMPTY)
             \<and> (i < length (ring_buffer s) \<longrightarrow> first_mark i used)
             \<and> (QUEUE_LEN c \<noteq> 0 \<and> queue_inv c s ps \<and> in_enqueue_order ps used \<longrightarrow>
                  concat used = ps
                  \<and> (\<forall>j < unat (QUEUE_LEN c). state (ring_buffer s' ! j) = STATE_EMPTY))))"
proof (intro conjI allI impI)
  show "pru_wait_queue_empty c s \<noteq> Abort"
    by (simp add: pru_wait_queue_empty_def Let_def wait_slot_empty_no_abort)
next
  assume "i < length (ring_buffer s)"
  then show "(pru_wait_queue_empty c s = Blocked)
              = (state (ring_buffer s ! i) \<noteq> STATE_EMPTY
                 \<and> (\<forall>ev \<in> set (events s). i \<notin> set ev))"
    using wait_slot_empty_Blocked_iff [of i s]
    by (simp add: pru_wait_queue_empty_def Let_def i_def)
next
  fix s' assume run: "pru_wait_queue_empty c s = Done s'"
  then have "wait_slot_empty i s = Done s'"
    by (simp add: pru_wait_queue_empty_def Let_def i_def)
  from wait_slot_empty_Done [OF this] obtain used rest where
    e: "events s = used @ rest"
    and s': "s' = s\<lparr>ring_buffer := fold pru_mark_empty used (ring_buffer s),
                  events := rest, trace := trace s @ wakeups used\<rparr>"
    and ex: "state (ring_buffer s' ! i) = STATE_EMPTY"
    and em: "(used = []) = (state (ring_buffer s ! i) = STATE_EMPTY)"
    and fm: "i < length (ring_buffer s) \<longrightarrow> first_mark i used"
    by blast
  have "events s' = rest" unfolding s' by simp
  then have cu: "consumed_events s s' = used" by (simp add: consumed_events_def e)
  have fifo: "concat used = ps
              \<and> (\<forall>j < unat (QUEUE_LEN c). state (ring_buffer s' ! j) = STATE_EMPTY)"
    if h: "QUEUE_LEN c \<noteq> 0 \<and> queue_inv c s ps \<and> in_enqueue_order ps used"
  proof -
    from h have q: "QUEUE_LEN c \<noteq> 0" and inv: "queue_inv c s ps"
      and ord: "in_enqueue_order ps (consumed_events s s')"
      by (simp_all add: cu)
    from wait_drained_consumed [OF q inv run ord] have "concat used = ps" by (simp add: cu)
    moreover have "\<forall>j < unat (QUEUE_LEN c). state (ring_buffer s' ! j) = STATE_EMPTY"
      using wait_drained_all [OF q inv run ord] by blast
    ultimately show ?thesis by blast
  qed
  show "\<exists>used rest.
               events s = used @ rest
             \<and> s' = s\<lparr>ring_buffer := fold pru_mark_empty used (ring_buffer s),
                       events := rest,
                       trace := trace s @ wakeups used\<rparr>
             \<and> consumed_events s s' = used
             \<and> state (ring_buffer s' ! i) = STATE_EMPTY
             \<and> (used = []) = (state (ring_buffer s ! i) = STATE_EMPTY)
             \<and> (i < length (ring_buffer s) \<longrightarrow> first_mark i used)
             \<and> (QUEUE_LEN c \<noteq> 0 \<and> queue_inv c s ps \<and> in_enqueue_order ps used \<longrightarrow>
                  concat used = ps
                  \<and> (\<forall>j < unat (QUEUE_LEN c). state (ring_buffer s' ! j) = STATE_EMPTY))"
    using e s' cu ex em fm fifo
    by (intro exI [of _ used] exI [of _ rest]) blast
qed

theorem wait_queue_empty_drained_witness:
  "QUEUE_LEN example_constants \<noteq> 0
   \<and> queue_inv example_constants two_enqueued [0, 1]
   \<and> map state (ring_buffer two_enqueued) = [1, 1, 0, 0]
   \<and> pru_wait_queue_empty example_constants (two_enqueued\<lparr>events := [[0]]\<rparr>) = Blocked
   \<and> (\<exists>s'. pru_wait_queue_empty example_constants two_enqueued = Done s'
          \<and> consumed_events two_enqueued s' = [[0], [1]]
          \<and> in_enqueue_order [0, 1] (consumed_events two_enqueued s')
          \<and> ring_buffer s' = pru_mark_empty [1] (pru_mark_empty [0] (ring_buffer two_enqueued))
          \<and> list_all (\<lambda>j. state (ring_buffer s' ! j) = STATE_EMPTY) [0, 1, 2, 3])"
proof -
  let ?c = example_constants
  let ?b = "two_enqueued\<lparr>events := [[0]]\<rparr>"
  let ?s' = "two_enqueued
          \<lparr>ring_buffer := pru_mark_empty [1] (pru_mark_empty [0] (ring_buffer two_enqueued)),
           events := [],
           trace := trace two_enqueued @ [WaitEvent, ClearEvent, WaitEvent, ClearEvent]\<rparr>"
  have q: "QUEUE_LEN ?c \<noteq> 0" by (simp add: example_constants_def)
  have ix: "unat ((queue_pos two_enqueued - 1) mod QUEUE_LEN ?c) = 1"
    by (simp add: two_enqueued_misc example_constants_def)
  have blocked: "pru_wait_queue_empty ?c ?b = Blocked"
    using wait_queue_empty_drained [where c = ?c and s = ?b, THEN conjunct2, THEN conjunct1]
    by (simp add: ix two_enqueued_ring filled_def STATE_EMPTY_def)
  from wait_queue_empty_drained
         [where c = ?c and s = two_enqueued and ps = "[0, 1]",
          THEN conjunct2, THEN conjunct2, rule_format, OF two_enqueued_drain]
  obtain used where
    u: "consumed_events two_enqueued ?s' = used"
       "QUEUE_LEN ?c \<noteq> 0 \<and> queue_inv ?c two_enqueued [0, 1] \<and> in_enqueue_order [0, 1] used
          \<longrightarrow> (\<forall>j < unat (QUEUE_LEN ?c). state (ring_buffer ?s' ! j) = STATE_EMPTY)"
    by blast
  have cu: "consumed_events two_enqueued ?s' = [[0], [1]]"
    by (simp add: consumed_events_def two_enqueued_misc)
  then have used: "used = [[0], [1]]" using u(1) by simp
  have ord: "in_enqueue_order [0, 1] [[0], [1]]" by (simp add: in_enqueue_order_def)
  from u(2) q two_enqueued_facts(2) ord used
  have "\<forall>j < unat (QUEUE_LEN ?c). state (ring_buffer ?s' ! j) = STATE_EMPTY" by blast
  then have all: "list_all (\<lambda>j. state (ring_buffer ?s' ! j) = STATE_EMPTY) [0, 1, 2, 3]"
    by (simp add: example_constants_def)
  have "pru_wait_queue_empty ?c two_enqueued = Done ?s'
          \<and> consumed_events two_enqueued ?s' = [[0], [1]]
          \<and> in_enqueue_order [0, 1] (consumed_events two_enqueued ?s')
          \<and> ring_buffer ?s' = pru_mark_empty [1] (pru_mark_empty [0] (ring_buffer two_enqueued))
          \<and> list_all (\<lambda>j. state (ring_buffer ?s' ! j) = STATE_EMPTY) [0, 1, 2, 3]"
    using two_enqueued_drain cu ord all by simp
  then have "\<exists>s'. pru_wait_queue_empty ?c two_enqueued = Done s'
          \<and> consumed_events two_enqueued s' = [[0], [1]]
          \<and> in_enqueue_order [0, 1] (consumed_events two_enqueued s')
          \<and> ring_buffer s' = pru_mark_empty [1] (pru_mark_empty [0] (ring_buffer two_enqueued))
          \<and> list_all (\<lambda>j. state (ring_buffer s' ! j) = STATE_EMPTY) [0, 1, 2, 3]"
    by (rule exI)
  with q two_enqueued_facts(2) two_enqueued_states blocked show ?thesis by blast
qed

subsection \<open>The assertion of enqueue\<close>

text \<open>
  Claim C5. \<^verbatim>\<open>pru_enqueue_segment\<close> aborts through its assertion if and only if the state
  that the caller's segment asks for is Empty; with any other state the assertion passes
  and the call goes on (it returns or waits for a slot, it does not abort).
\<close>

theorem enqueue_aborts_iff_state_empty:
  "(pru_enqueue_segment c element s = Abort) = (state element = STATE_EMPTY)"
  by (simp add: pru_enqueue_segment_def Let_def next_queue_element_no_abort
           split: outcome.splits prod.splits)

theorem enqueue_aborts_iff_state_empty_witness:
  "pru_enqueue_segment example_constants ((filled 5)\<lparr>state := STATE_EMPTY\<rparr>)
     (map_pru_communication example_constants unopened) = Abort
   \<and> pru_enqueue_segment example_constants (filled 5)
     (map_pru_communication example_constants unopened) \<noteq> Abort"
  using enqueue_aborts_iff_state_empty
          [of example_constants "(filled 5)\<lparr>state := STATE_EMPTY\<rparr>"
              "map_pru_communication example_constants unopened"]
        enqueue_aborts_iff_state_empty
          [of example_constants "filled 5" "map_pru_communication example_constants unopened"]
  by (simp add: filled_def STATE_EMPTY_def)

subsection \<open>Shutdown with flush\<close>




subsection \<open>The motor-enable line\<close>

text \<open>
  Claim C7. The enable line has inverted logic: after \<^verbatim>\<open>pru_motor_enable_nowait(on)\<close> the
  enable bit of the data-out register of GPIO-1 is 0 when \<open>on\<close> is true (non-zero) and 1
  when \<open>on\<close> is false (zero). The bit number is one of the 32 bits of the register.
\<close>

theorem motor_enable_inverted:
  assumes "MOTOR_ENABLE_GPIO1_BIT c < 32"
  shows "bit (gpio_1_dataout (pru_motor_enable_nowait c on s)) (MOTOR_ENABLE_GPIO1_BIT c)
           = (on = 0)"
  using assms by (simp add: pru_motor_enable_nowait_def Let_def bit_exp_iff)

theorem motor_enable_inverted_witness:
  "MOTOR_ENABLE_GPIO1_BIT example_constants < 32
   \<and> bit (gpio_1_dataout (pru_motor_enable_nowait example_constants 0 unopened)) 28
   \<and> \<not> bit (gpio_1_dataout (pru_motor_enable_nowait example_constants 1 unopened)) 28"
  using motor_enable_inverted [of example_constants 0 unopened]
        motor_enable_inverted [of example_constants 1 unopened]
  by (simp add: example_constants_def)

text \<open>
  Claim C8. \<^verbatim>\<open>pru_motor_enable_nowait\<close> stores a whole word into the data-out register:
  after the call, with either argument, every bit of the register other than the
  motor-enable bit is 0, whatever the register held before.
\<close>

theorem motor_enable_clears_other_bits:
  assumes "n \<noteq> MOTOR_ENABLE_GPIO1_BIT c"
  shows "\<not> bit (gpio_1_dataout (pru_motor_enable_nowait c on s)) n"
  using assms by (simp add: pru_motor_enable_nowait_def Let_def bit_exp_iff)

theorem motor_enable_clears_other_bits_witness:
  "12 \<noteq> MOTOR_ENABLE_GPIO1_BIT example_constants
   \<and> bit (gpio_1_dataout unopened) 12
   \<and> \<not> bit (gpio_1_dataout (pru_motor_enable_nowait example_constants 0 unopened)) 12
   \<and> \<not> bit (gpio_1_dataout (pru_motor_enable_nowait example_constants 1 unopened)) 12"
  using motor_enable_clears_other_bits [of 12 example_constants 0 unopened]
        motor_enable_clears_other_bits [of 12 example_constants 1 unopened]
  by (simp add: example_constants_def unopened_def)

subsection \<open>The caller's segment\<close>

text \<open>
  Claim C9. \<^verbatim>\<open>pru_enqueue_segment\<close> writes to the segment of its caller: when it returns,
  the state of the caller's segment is Empty (the state asked for is not put back), and
  every other member is as it was.
\<close>

theorem enqueue_clears_caller_state:
  assumes "pru_enqueue_segment c element s = Done (s', element')"
  shows "element' = element\<lparr>state := STATE_EMPTY\<rparr>"
  using assms
  by (auto simp add: pru_enqueue_segment_def Let_def
           split: if_splits outcome.splits prod.splits)

theorem enqueue_clears_caller_state_witness:
  "state (filled 5) = 1
   \<and> (\<exists>s'. pru_enqueue_segment example_constants (filled 5)
              (map_pru_communication example_constants unopened)
            = Done (s', (filled 5)\<lparr>state := STATE_EMPTY\<rparr>))"
proof -
  let ?f = "map_pru_communication example_constants unopened"
  obtain s' e' where d: "pru_enqueue_segment example_constants (filled 5) ?f = Done (s', e')"
    using example_enqueue
    by (cases "pru_enqueue_segment example_constants (filled 5) ?f") auto
  from enqueue_clears_caller_state [OF d] d show ?thesis by (auto simp: filled_def)
qed

subsection \<open>Waiting on a fresh channel\<close>

text \<open>
  Claim C10. On a channel that has just been opened (\<^verbatim>\<open>queue_pos_ = 0\<close>, all slots Empty),
  \<^verbatim>\<open>pru_wait_queue_empty\<close> returns at once, without taking an event: the unsigned
  \<^verbatim>\<open>(queue_pos_ - 1) % QUEUE_LEN\<close> is the index of a slot, and that slot is Empty. When
  \<^verbatim>\<open>QUEUE_LEN\<close> divides \<open>2 ^ 32\<close>, the index is \<^verbatim>\<open>QUEUE_LEN - 1\<close>.
\<close>

theorem wait_queue_empty_fresh:
  assumes "QUEUE_LEN c \<noteq> 0"
  shows "pru_wait_queue_empty c (map_pru_communication c s) = Done (map_pru_communication c s)
         \<and> (unat (QUEUE_LEN c) dvd 2 ^ 32 \<longrightarrow>
              (queue_pos (map_pru_communication c s) - 1) mod QUEUE_LEN c = QUEUE_LEN c - 1)"
proof -
  have "unat ((queue_pos (map_pru_communication c s) - 1) mod QUEUE_LEN c) < unat (QUEUE_LEN c)"
    using assms by (rule unat_mod_less)
  then have "state (ring_buffer (map_pru_communication c s)
               ! unat ((queue_pos (map_pru_communication c s) - 1) mod QUEUE_LEN c)) = STATE_EMPTY"
    by (rule fresh_slot_empty)
  then have "pru_wait_queue_empty c (map_pru_communication c s) = Done (map_pru_communication c s)"
    by (simp add: pru_wait_queue_empty_def Let_def wait_slot_empty.simps)
  moreover have "queue_pos (map_pru_communication c s) = 0"
    by (simp add: map_pru_communication_def)
  ultimately show ?thesis using assms last_insert_position_fresh [of c] by auto
qed

theorem wait_queue_empty_fresh_witness:
  "QUEUE_LEN example_constants \<noteq> 0
   \<and> unat (QUEUE_LEN example_constants) dvd 2 ^ 32
   \<and> pru_wait_queue_empty example_constants (map_pru_communication example_constants unopened)
       = Done (map_pru_communication example_constants unopened)
   \<and> (queue_pos (map_pru_communication example_constants unopened) - 1)
       mod QUEUE_LEN example_constants = 3"
  using wait_queue_empty_fresh [of example_constants unopened]
  by (simp add: example_constants_def)

end
